theory Spec2Isabelle
  imports Main
begin

section \<open>Sliding-window maximum over a hand-written binary max-heap (leetcode.go)\<close>

text \<open>
  The Go source has one struct (\<open>Heap\<close>, a slice of ints), four methods with a pointer
  receiver (\<open>Push\<close>, \<open>Pop\<close>, \<open>IsEmpty\<close>, \<open>Peek\<close>) and the function \<open>maxSlidingWindow\<close>.

  Conventions of the embedding:
  \<^item> a method with receiver \<open>h *Heap\<close> takes the heap and returns its result together
    with the heap it leaves behind;
  \<^item> an index expression \<open>s[i]\<close> of Go panics when \<open>i\<close> is outside \<open>0 .. len(s)-1\<close>;
    a panic is the value \<open>Inl IndexOutOfRange\<close>, and the state at the moment of the
    panic is returned with it;
  \<^item> the elements are Go \<open>int\<close>s that are only copied and compared, never computed
    with, so they are HOL integers; the one index computation that can leave the
    64-bit range (\<open>i+k-1\<close>) wraps explicitly;
  \<^item> the \<open>fmt.Print*\<close> calls only write diagnostics and are left out.
\<close>

subsection \<open>Panics and checked slice access\<close>

datatype error = IndexOutOfRange

text \<open>\<open>s[i]\<close> for an index that is a Go int (possibly negative).\<close>

definition at_int :: "int list \<Rightarrow> int \<Rightarrow> error + int" where
  "at_int s i = (if 0 \<le> i \<and> i < int (length s) then Inr (s ! nat i) else Inl IndexOutOfRange)"

text \<open>\<open>s[i]\<close> for an index known to be non-negative (heap positions).\<close>

definition at :: "int list \<Rightarrow> nat \<Rightarrow> error + int" where
  "at s i = (if i < length s then Inr (s ! i) else Inl IndexOutOfRange)"

fun bindE :: "error + 'a \<Rightarrow> ('a \<Rightarrow> error + 'b) \<Rightarrow> error + 'b" where
  "bindE (Inl e) f = Inl e"
| "bindE (Inr v) f = f v"

text \<open>\<open>s[i] < s[j]\<close> and \<open>s[i] >= s[j]\<close>: the left operand is read first.\<close>

definition lt_at :: "int list \<Rightarrow> nat \<Rightarrow> nat \<Rightarrow> error + bool" where
  "lt_at s i j = bindE (at s i) (\<lambda>x. bindE (at s j) (\<lambda>y. Inr (x < y)))"

definition ge_at :: "int list \<Rightarrow> nat \<Rightarrow> nat \<Rightarrow> error + bool" where
  "ge_at s i j = bindE (at s i) (\<lambda>x. bindE (at s j) (\<lambda>y. Inr (x \<ge> y)))"

text \<open>\<open>p && q\<close>: \<open>q\<close> is evaluated (and can panic) only when \<open>p\<close> is true.\<close>

definition andE :: "error + bool \<Rightarrow> error + bool \<Rightarrow> error + bool" where
  "andE p q = bindE p (\<lambda>b. if b then q else Inr False)"

text \<open>\<open>if cond { a } else { b }\<close> for a condition that can panic.\<close>

fun ifE :: "error + bool \<Rightarrow> error + 'a \<Rightarrow> error + 'a \<Rightarrow> error + 'a" where
  "ifE (Inl e) a b = Inl e"
| "ifE (Inr t) a b = (if t then a else b)"

text \<open>\<open>s[i], s[j] = s[j], s[i]\<close>: both operands are read before either is written.\<close>

definition swap_at :: "int list \<Rightarrow> nat \<Rightarrow> nat \<Rightarrow> error + int list" where
  "swap_at s i j = bindE (at s j) (\<lambda>y. bindE (at s i) (\<lambda>x. Inr (s[i := y, j := x])))"

subsection \<open>The heap\<close>

record Heap =
  c :: "int list"

definition NewHeap :: Heap where
  "NewHeap = \<lparr>c = []\<rparr>"

definition IsEmpty :: "Heap \<Rightarrow> bool \<times> Heap" where
  "IsEmpty h = (length (c h) = 0, h)"

text \<open>
  \<open>Peek\<close>: the read \<open>h.c[0]\<close> happens only when the heap is not empty, where index 0
  exists.
\<close>

definition Peek :: "Heap \<Rightarrow> int \<times> Heap" where
  "Peek h = (case IsEmpty h of (e, h1) \<Rightarrow> if \<not> e then (c h1 ! 0, h1) else (- 1, h1))"

text \<open>
  The loop of \<open>Push\<close>, on the contents of \<open>h.c\<close> and the position \<open>idx\<close>:
  \<open>for idx-1 >= 0 && h.c[(idx-1)/2] < h.c[idx] { swap; idx = (idx-1)/2 }\<close>.
  \<open>idx\<close> is never negative, so it is a natural number and \<open>idx-1 >= 0\<close> reads
  \<open>1 \<le> idx\<close>.
\<close>

fun Push_loop :: "int list \<Rightarrow> nat \<Rightarrow> (error + unit) \<times> int list" where
  "Push_loop s idx =
     (if 1 \<le> idx then
        (case lt_at s ((idx - 1) div 2) idx of
           Inl e \<Rightarrow> (Inl e, s)
         | Inr b \<Rightarrow>
             if b then
               (case swap_at s ((idx - 1) div 2) idx of
                  Inl e \<Rightarrow> (Inl e, s)
                | Inr s' \<Rightarrow> Push_loop s' ((idx - 1) div 2))
             else (Inr (), s))
      else (Inr (), s))"

definition Push :: "int \<Rightarrow> Heap \<Rightarrow> (error + unit) \<times> Heap" where
  "Push x h =
     (let s1 = c h @ [x];
          idx = length s1 - 1
      in case Push_loop s1 idx of (r, s2) \<Rightarrow> (r, h\<lparr>c := s2\<rparr>))"

text \<open>
  One pass through the body of the loop of \<open>Pop\<close>: it ends with \<open>return res\<close>, or with
  \<open>continue\<close> after a swap, or it panics.
\<close>

datatype step = Return | Continue "int list" nat

definition swap_continue :: "int list \<Rightarrow> nat \<Rightarrow> nat \<Rightarrow> error + step" where
  "swap_continue s idx child = bindE (swap_at s idx child) (\<lambda>s'. Inr (Continue s' child))"

definition Pop_body :: "int list \<Rightarrow> nat \<Rightarrow> error + step" where
  "Pop_body s idx =
     (let left = idx * 2 + 1;
          right = idx * 2 + 2
      in
        if right \<ge> length s \<and> left \<ge> length s then Inr Return
        else
          ifE (andE (Inr (right \<ge> length s)) (lt_at s idx left))
            (swap_continue s idx left)
          (ifE (andE (ge_at s idx left) (ge_at s idx right))
            (Inr Return)
          (ifE (ge_at s idx left)
            (swap_continue s idx right)
          (ifE (ge_at s idx right)
            (swap_continue s idx left)
          (ifE (lt_at s left right)
            (swap_continue s idx right)
            (swap_continue s idx left))))))"

function Pop_loop :: "int list \<Rightarrow> nat \<Rightarrow> (error + unit) \<times> int list" where
  "Pop_loop s idx =
     (if idx < length s then
        (case Pop_body s idx of
           Inl e \<Rightarrow> (Inl e, s)
         | Inr Return \<Rightarrow> (Inr (), s)
         | Inr (Continue s' idx') \<Rightarrow> Pop_loop s' idx')
      else (Inr (), s))"
  by pat_completeness auto
termination
proof (relation "measure (\<lambda>(s, idx). length s - idx)")
  show "wf (measure (\<lambda>(s, idx). length s - idx))" by simp
next
  fix s :: "int list" and idx :: nat and x2 :: step and s' :: "int list" and idx' :: nat
  assume "idx < length s" and "Pop_body s idx = Inr x2" and "x2 = Continue s' idx'"
  then have "Pop_body s idx = Inr (Continue s' idx')" by simp
  then have "length s' = length s \<and> idx < idx'"
    by (auto simp: Pop_body_def Let_def swap_continue_def swap_at_def lt_at_def ge_at_def
        andE_def at_def split: if_splits)
  with \<open>idx < length s\<close> show "((s', idx'), (s, idx)) \<in> measure (\<lambda>(s, idx). length s - idx)"
    by auto
qed

definition Pop :: "Heap \<Rightarrow> (error + int) \<times> Heap" where
  "Pop h =
     (case IsEmpty h of (e, h1) \<Rightarrow>
        if \<not> e then
          (let res = c h1 ! 0;
               s1 = (c h1)[0 := c h1 ! (length (c h1) - 1)];
               s2 = take (length s1 - 1) s1
           in case Pop_loop s2 0 of
                (Inl err, s3) \<Rightarrow> (Inl err, h1\<lparr>c := s3\<rparr>)
              | (Inr u, s3) \<Rightarrow> (Inr res, h1\<lparr>c := s3\<rparr>))
        else (Inr (- 1), h1))"

subsection \<open>maxSlidingWindow\<close>

text \<open>
  Go's \<open>int\<close> is 64 bits wide and signed. The loop condition \<open>i+k-1 < len(nums)\<close> is
  the only arithmetic on a caller-supplied number, and it wraps.
\<close>

definition wrap64 :: "int \<Rightarrow> int" where
  "wrap64 x = (x + 2 ^ 63) mod 2 ^ 64 - 2 ^ 63"

text \<open>
  The variables of one call: the caller's array behind the slice \<open>nums\<close>, the heap \<open>h\<close>
  and the result slice \<open>res\<close>. \<open>h.c\<close> and \<open>res\<close> come from \<open>make\<close> inside the call, so
  they are arrays of their own and share nothing with \<open>nums\<close>.
\<close>

record vars =
  v_nums :: "int list"
  v_h :: Heap
  v_res :: "int list"

text \<open>\<open>for i:=0; i<k; i++ { h.Push(nums[i]) }\<close>\<close>

function loop1 :: "int \<Rightarrow> int \<Rightarrow> vars \<Rightarrow> (error + unit) \<times> vars" where
  "loop1 k i v =
     (if i < k then
        (case at_int (v_nums v) i of
           Inl e \<Rightarrow> (Inl e, v)
         | Inr x \<Rightarrow>
             (case Push x (v_h v) of
                (Inl e, h1) \<Rightarrow> (Inl e, v\<lparr>v_h := h1\<rparr>)
              | (Inr u, h1) \<Rightarrow> loop1 k (i + 1) (v\<lparr>v_h := h1\<rparr>)))
      else (Inr (), v))"
  by pat_completeness auto
termination
  by (relation "measure (\<lambda>(k, i, v). nat (k - i))") auto

text \<open>
  The second loop. \<open>h.Pop()\<close> is called for its effect; its result is dropped.
\<close>

definition Pop_if :: "bool \<Rightarrow> Heap \<Rightarrow> (error + unit) \<times> Heap" where
  "Pop_if b h =
     (if b then (case Pop h of (Inl e, h1) \<Rightarrow> (Inl e, h1) | (Inr r, h1) \<Rightarrow> (Inr (), h1))
      else (Inr (), h))"

function loop2 :: "int \<Rightarrow> int \<Rightarrow> vars \<Rightarrow> (error + unit) \<times> vars" where
  "loop2 k i v =
     (if wrap64 (i + k - 1) < int (length (v_nums v)) then
        (if i = 0 then
           (case Peek (v_h v) of
              (m, h1) \<Rightarrow> loop2 k (i + 1) (v\<lparr>v_h := h1, v_res := v_res v @ [m]\<rparr>))
         else
           (case Peek (v_h v) of
              (m, h1) \<Rightarrow>
                (case at_int (v_nums v) (i - 1) of
                   Inl e \<Rightarrow> (Inl e, v\<lparr>v_h := h1\<rparr>)
                 | Inr y \<Rightarrow>
                     (case Pop_if (m = y) h1 of
                        (Inl e, h2) \<Rightarrow> (Inl e, v\<lparr>v_h := h2\<rparr>)
                      | (Inr u, h2) \<Rightarrow>
                          (case at_int (v_nums v) (wrap64 (i + k - 1)) of
                             Inl e \<Rightarrow> (Inl e, v\<lparr>v_h := h2\<rparr>)
                           | Inr x \<Rightarrow>
                               (case Push x h2 of
                                  (Inl e, h3) \<Rightarrow> (Inl e, v\<lparr>v_h := h3\<rparr>)
                                | (Inr u', h3) \<Rightarrow>
                                    (case Peek h3 of
                                       (m', h4) \<Rightarrow>
                                         loop2 k (i + 1)
                                           (v\<lparr>v_h := h4, v_res := v_res v @ [m']\<rparr>))))))))
      else (Inr (), v))"
  by pat_completeness auto
termination
  by (relation "measure (\<lambda>(k, i, v). nat (int (length (v_nums v)) + 1 - i))")
    (auto simp: at_int_def split: if_splits)

text \<open>
  The call: the outcome (the result slice, or the panic) and the caller's array as the
  call leaves it.
\<close>

definition maxSlidingWindow :: "int list \<Rightarrow> int \<Rightarrow> (error + int list) \<times> int list" where
  "maxSlidingWindow nums k =
     (let v0 = \<lparr>v_nums = nums, v_h = NewHeap, v_res = []\<rparr>
      in case loop1 k 0 v0 of
           (Inl e, v1) \<Rightarrow> (Inl e, v_nums v1)
         | (Inr u, v1) \<Rightarrow>
             (case loop2 k 0 v1 of
                (Inl e, v2) \<Rightarrow> (Inl e, v_nums v2)
              | (Inr u', v2) \<Rightarrow> (Inr (v_res v2), v_nums v2)))"

subsection \<open>Sequences of heap calls and the heap order\<close>

text \<open>
  A caller's use of a heap is a finite sequence of \<open>Push\<close> and \<open>Pop\<close> calls. The heap
  it holds afterwards is the one the last call left, also when a call panicked (the
  contents written before the panic stay written).
\<close>

datatype call = CallPush int | CallPop

fun do_call :: "call \<Rightarrow> Heap \<Rightarrow> Heap" where
  "do_call (CallPush x) h = snd (Push x h)"
| "do_call CallPop h = snd (Pop h)"

fun run_calls :: "call list \<Rightarrow> Heap \<Rightarrow> Heap" where
  "run_calls [] h = h"
| "run_calls (a # as) h = run_calls as (do_call a h)"

text \<open>The max-heap order on an array: no position holds more than its parent.\<close>

definition heap_order :: "int list \<Rightarrow> bool" where
  "heap_order s = (\<forall>i \<in> {1 ..< length s}. s ! i \<le> s ! ((i - 1) div 2))"

text \<open>
  The order with one position excepted, as the two loops see it: while \<open>Push\<close> moves
  the new element up from \<open>idx\<close>, only \<open>idx\<close> may exceed its parent; while \<open>Pop\<close>
  moves the root's replacement down from \<open>idx\<close>, only the children of \<open>idx\<close> may
  exceed it. In both, the children of \<open>idx\<close> are bounded by the parent of \<open>idx\<close>.
\<close>

definition order_except_up :: "int list \<Rightarrow> nat \<Rightarrow> bool" where
  "order_except_up s idx =
     (idx < length s
      \<and> (\<forall>i \<in> {1 ..< length s}. i \<noteq> idx \<longrightarrow> s ! i \<le> s ! ((i - 1) div 2))
      \<and> (\<forall>i \<in> {1 ..< length s}. 0 < idx \<and> (i - 1) div 2 = idx
            \<longrightarrow> s ! i \<le> s ! ((idx - 1) div 2)))"

definition order_except_down :: "int list \<Rightarrow> nat \<Rightarrow> bool" where
  "order_except_down s idx =
     ((\<forall>i \<in> {1 ..< length s}. (i - 1) div 2 \<noteq> idx \<longrightarrow> s ! i \<le> s ! ((i - 1) div 2))
      \<and> (\<forall>i \<in> {1 ..< length s}. 0 < idx \<and> (i - 1) div 2 = idx
            \<longrightarrow> s ! i \<le> s ! ((idx - 1) div 2)))"

declare Push_loop.simps [simp del]
declare Pop_loop.simps [simp del]
declare loop1.simps [simp del]
declare loop2.simps [simp del]

section \<open>Properties\<close>

subsection \<open>The empty heap and Peek\<close>

text \<open>
  C7. \<open>Pop\<close> on an empty heap returns the sentinel \<open>-1\<close> and leaves the heap as it
  was: the backing array is not written.
\<close>

theorem Pop_empty_sentinel:
  "fst (IsEmpty h) \<Longrightarrow> Pop h = (Inr (- 1), h)"
  by (simp add: Pop_def IsEmpty_def)

theorem Pop_empty_sentinel_witness:
  "fst (IsEmpty NewHeap) \<and> Pop NewHeap = (Inr (- 1), NewHeap)"
  using Pop_empty_sentinel [of NewHeap] by (simp add: IsEmpty_def NewHeap_def)

text \<open>
  C8. \<open>Peek\<close> leaves the heap as it was, a second \<open>Peek\<close> right after the first returns
  the same value, and on an empty heap the value is the sentinel \<open>-1\<close>.
\<close>

theorem Peek_reads_only:
  "snd (Peek h) = h
   \<and> fst (Peek (snd (Peek h))) = fst (Peek h)
   \<and> (fst (IsEmpty h) \<longrightarrow> fst (Peek h) = - 1)"
  by (simp add: Peek_def IsEmpty_def)

theorem Peek_reads_only_witness:
  "fst (IsEmpty NewHeap)
   \<and> snd (Peek NewHeap) = NewHeap
   \<and> fst (Peek (snd (Peek NewHeap))) = fst (Peek NewHeap)
   \<and> fst (Peek NewHeap) = - 1"
  using Peek_reads_only [of NewHeap] by (simp add: IsEmpty_def NewHeap_def)

subsection \<open>The tie between two larger children\<close>

text \<open>
  C10. In the loop of \<open>Pop\<close>, when both children of \<open>idx\<close> are in range, both are
  greater than the element at \<open>idx\<close> and the two are equal, the pass swaps \<open>idx\<close> with
  the left child and the loop goes on from the left child.
\<close>

theorem Pop_tie_goes_left:
  assumes "idx * 2 + 2 < length s"
    and "s ! idx < s ! (idx * 2 + 1)"
    and "s ! idx < s ! (idx * 2 + 2)"
    and "s ! (idx * 2 + 1) = s ! (idx * 2 + 2)"
  shows "Pop_body s idx =
           Inr (Continue (s[idx := s ! (idx * 2 + 1), idx * 2 + 1 := s ! idx]) (idx * 2 + 1))
         \<and> Pop_loop s idx =
           Pop_loop (s[idx := s ! (idx * 2 + 1), idx * 2 + 1 := s ! idx]) (idx * 2 + 1)"
proof -
  have body: "Pop_body s idx =
      Inr (Continue (s[idx := s ! (idx * 2 + 1), idx * 2 + 1 := s ! idx]) (idx * 2 + 1))"
    using assms
    by (simp add: Pop_body_def Let_def andE_def lt_at_def ge_at_def at_def swap_continue_def
        swap_at_def)
  have "idx < length s" using assms(1) by simp
  then show ?thesis using body by (simp add: Pop_loop.simps [of s idx])
qed

theorem Pop_tie_goes_left_witness:
  "(0::nat) * 2 + 2 < length [1, 2, 2 :: int]
   \<and> [1, 2, 2 :: int] ! 0 < [1, 2, 2] ! (0 * 2 + 1)
   \<and> [1, 2, 2 :: int] ! 0 < [1, 2, 2] ! (0 * 2 + 2)
   \<and> [1, 2, 2 :: int] ! (0 * 2 + 1) = [1, 2, 2] ! (0 * 2 + 2)
   \<and> Pop_body [1, 2, 2] 0 = Inr (Continue [2, 1, 2] 1)
   \<and> Pop_loop [1, 2, 2] 0 = Pop_loop [2, 1, 2] 1"
  using Pop_tie_goes_left [of 0 "[1, 2, 2]"] by simp

subsection \<open>The caller's array\<close>

lemma loop1_nums: "v_nums (snd (loop1 k i v)) = v_nums v"
proof (induction k i v rule: loop1.induct)
  case (1 k i v)
  show ?case
    using "1.IH"
    by (subst loop1.simps) (auto split: sum.splits prod.splits)
qed

lemma loop2_nums: "v_nums (snd (loop2 k i v)) = v_nums v"
proof (induction k i v rule: loop2.induct)
  case (1 k i v)
  show ?case
    using "1.IH"
    by (subst loop2.simps) (auto split: sum.splits prod.splits)
qed

text \<open>
  C9. For every input and every \<open>k\<close>, the caller's array is the same after the call as
  before it, whether the call returns or panics.
\<close>

theorem maxSlidingWindow_keeps_nums:
  "snd (maxSlidingWindow nums k) = nums"
  using loop1_nums [of k 0 "\<lparr>v_nums = nums, v_h = NewHeap, v_res = []\<rparr>"]
        loop2_nums [of k 0 "snd (loop1 k 0 \<lparr>v_nums = nums, v_h = NewHeap, v_res = []\<rparr>)"]
  by (auto simp: maxSlidingWindow_def Let_def split: sum.splits prod.splits)

subsection \<open>The heap order is kept by Push and Pop\<close>

lemma heap_order_root: "heap_order s \<Longrightarrow> i < length s \<Longrightarrow> s ! i \<le> s ! 0"
proof (induction i rule: less_induct)
  case (less i)
  show ?case
  proof (cases "i = 0")
    case True
    then show ?thesis by simp
  next
    case False
    then have "s ! i \<le> s ! ((i - 1) div 2)"
      using less.prems by (simp add: heap_order_def)
    moreover have "(i - 1) div 2 < i" using False by simp
    ultimately show ?thesis
      using less.IH [of "(i - 1) div 2"] less.prems by simp
  qed
qed

lemma order_except_up_done:
  assumes "order_except_up s idx" and "idx = 0 \<or> s ! idx \<le> s ! ((idx - 1) div 2)"
  shows "heap_order s"
  using assms unfolding order_except_up_def heap_order_def
  by (metis atLeastLessThan_iff not_one_le_zero)

lemma order_except_up_step:
  assumes inv: "order_except_up s idx" and pos: "1 \<le> idx"
    and lt: "s ! ((idx - 1) div 2) < s ! idx"
  shows "order_except_up (s[(idx - 1) div 2 := s ! idx, idx := s ! ((idx - 1) div 2)])
           ((idx - 1) div 2)"
proof -
  define p where "p = (idx - 1) div 2"
  define t where "t = s[p := s ! idx, idx := s ! p]"
  have len: "idx < length s" and pidx: "p < idx"
    using inv pos by (auto simp: order_except_up_def p_def)
  have ord: "\<And>i. 1 \<le> i \<Longrightarrow> i < length s \<Longrightarrow> i \<noteq> idx \<Longrightarrow> s ! i \<le> s ! ((i - 1) div 2)"
    using inv by (simp add: order_except_up_def)
  have kids: "\<And>i. 1 \<le> i \<Longrightarrow> i < length s \<Longrightarrow> (i - 1) div 2 = idx \<Longrightarrow> s ! i \<le> s ! p"
    using inv pos by (simp add: order_except_up_def p_def)
  have tn: "\<And>i. i < length s \<Longrightarrow> t ! i = (if i = idx then s ! p else if i = p then s ! idx else s ! i)"
    using len pidx by (simp add: t_def nth_list_update)
  have a: "t ! i \<le> t ! ((i - 1) div 2)" if "1 \<le> i" "i < length s" "i \<noteq> p" for i
  proof -
    have pi: "(i - 1) div 2 < length s" using that by simp
    show ?thesis
    proof (cases "i = idx")
      case True
      then show ?thesis using lt tn [of idx] tn [of p] len pidx by (simp add: p_def)
    next
      case False
      have "s ! i \<le> s ! ((i - 1) div 2)" using ord that False by simp
      moreover have "(i - 1) div 2 = idx \<Longrightarrow> s ! i \<le> s ! p" using kids that by simp
      ultimately show ?thesis
        using tn [of i] tn [OF pi] that False lt by (auto simp: p_def)
    qed
  qed
  have b: "t ! i \<le> t ! ((p - 1) div 2)"
    if "1 \<le> i" "i < length s" "0 < p" "(i - 1) div 2 = p" for i
  proof -
    have pp: "(p - 1) div 2 < p" using that by simp
    have sp: "s ! p \<le> s ! ((p - 1) div 2)" using ord [of p] that pidx len by simp
    have tpp: "t ! ((p - 1) div 2) = s ! ((p - 1) div 2)"
      using tn [of "(p - 1) div 2"] pp pidx len by simp
    show ?thesis
    proof (cases "i = idx")
      case True
      then show ?thesis using tn [of idx] len sp tpp by simp
    next
      case False
      have "i \<noteq> p" using that by auto
      moreover have "s ! i \<le> s ! p" using ord [of i] that False by simp
      ultimately show ?thesis using tn [of i] that False sp tpp by simp
    qed
  qed
  have lt: "length t = length s" by (simp add: t_def)
  have "p < length t" using len pidx lt by simp
  then have "order_except_up t p"
    unfolding order_except_up_def using a b lt by auto
  then show ?thesis by (simp add: t_def p_def)
qed

lemma Push_loop_order:
  "order_except_up s idx \<Longrightarrow>
     fst (Push_loop s idx) = Inr () \<and> heap_order (snd (Push_loop s idx))"
proof (induction s idx rule: Push_loop.induct)
  case (1 s idx)
  have len: "idx < length s" using "1.prems" by (simp add: order_except_up_def)
  show ?case
  proof (cases "1 \<le> idx \<and> s ! ((idx - 1) div 2) < s ! idx")
    case True
    then have pl: "(idx - 1) div 2 < length s" using len by simp
    have st: "order_except_up (s[(idx - 1) div 2 := s ! idx, idx := s ! ((idx - 1) div 2)])
           ((idx - 1) div 2)"
      using order_except_up_step "1.prems" True by simp
    have "Push_loop s idx =
        Push_loop (s[(idx - 1) div 2 := s ! idx, idx := s ! ((idx - 1) div 2)]) ((idx - 1) div 2)"
      using True len pl by (subst Push_loop.simps) (simp add: lt_at_def swap_at_def at_def)
    moreover have "fst (Push_loop (s[(idx - 1) div 2 := s ! idx, idx := s ! ((idx - 1) div 2)]) ((idx - 1) div 2)) = Inr ()
      \<and> heap_order (snd (Push_loop (s[(idx - 1) div 2 := s ! idx, idx := s ! ((idx - 1) div 2)]) ((idx - 1) div 2)))"
      using "1.IH" [of True "s[(idx - 1) div 2 := s ! idx, idx := s ! ((idx - 1) div 2)]"] True len pl st
      by (simp add: lt_at_def swap_at_def at_def)
    ultimately show ?thesis by simp
  next
    case False
    then have "Push_loop s idx = (Inr (), s)"
      using len by (subst Push_loop.simps) (auto simp: lt_at_def at_def)
    moreover have "heap_order s"
      using order_except_up_done [OF "1.prems"] False by auto
    ultimately show ?thesis by simp
  qed
qed

lemma Push_order:
  assumes "heap_order (c h)"
  shows "fst (Push x h) = Inr () \<and> heap_order (c (snd (Push x h)))"
proof -
  have "(i - 1) div 2 \<noteq> length (c h)" if "1 \<le> i" "i < length (c h @ [x])" for i
    using that by (simp add: less_Suc_eq_le)
  moreover have "(c h @ [x]) ! i \<le> (c h @ [x]) ! ((i - 1) div 2)"
    if "1 \<le> i" "i < length (c h @ [x])" "i \<noteq> length (c h)" for i
  proof -
    have "i < length (c h)" using that by simp
    moreover have "(i - 1) div 2 < length (c h)" using \<open>i < length (c h)\<close> by simp
    ultimately show ?thesis using assms that by (simp add: heap_order_def nth_append)
  qed
  ultimately have "order_except_up (c h @ [x]) (length (c h))"
    unfolding order_except_up_def by auto
  then show ?thesis
    using Push_loop_order [of "c h @ [x]" "length (c h)"]
    by (auto simp: Push_def Let_def split: prod.splits)
qed

lemma parent_eq: "1 \<le> i \<Longrightarrow> ((i - 1) div 2 = k) = (i = k * 2 + 1 \<or> i = k * 2 + 2)"
  for i k :: nat
  by presburger

lemma order_except_down_done:
  assumes inv: "order_except_down s idx"
    and kids: "\<And>j. j = idx * 2 + 1 \<or> j = idx * 2 + 2 \<Longrightarrow> j < length s \<Longrightarrow> s ! j \<le> s ! idx"
  shows "heap_order s"
proof -
  have "s ! i \<le> s ! ((i - 1) div 2)" if "1 \<le> i" "i < length s" for i
  proof (cases "(i - 1) div 2 = idx")
    case True
    then have "i = idx * 2 + 1 \<or> i = idx * 2 + 2" using that parent_eq by simp
    then show ?thesis using kids that True by simp
  next
    case False
    then show ?thesis using inv that by (simp add: order_except_down_def)
  qed
  then show ?thesis by (simp add: heap_order_def)
qed

lemma order_except_down_step:
  assumes inv: "order_except_down s idx"
    and ch: "ch = idx * 2 + 1 \<or> ch = idx * 2 + 2"
    and len: "ch < length s"
    and lt: "s ! idx < s ! ch"
    and big: "\<And>j. j = idx * 2 + 1 \<or> j = idx * 2 + 2 \<Longrightarrow> j < length s \<Longrightarrow> s ! j \<le> s ! ch"
  shows "order_except_down (s[idx := s ! ch, ch := s ! idx]) ch"
proof -
  define t where "t = s[idx := s ! ch, ch := s ! idx]"
  have lent: "length t = length s" by (simp add: t_def)
  have idxch: "idx < ch" and pch: "(ch - 1) div 2 = idx" using ch by auto
  have tn: "\<And>i. i < length s \<Longrightarrow>
      t ! i = (if i = ch then s ! idx else if i = idx then s ! ch else s ! i)"
    using len idxch by (simp add: t_def nth_list_update)
  have ord: "\<And>i. 1 \<le> i \<Longrightarrow> i < length s \<Longrightarrow> (i - 1) div 2 \<noteq> idx
      \<Longrightarrow> s ! i \<le> s ! ((i - 1) div 2)"
    using inv by (simp add: order_except_down_def)
  have up: "\<And>i. 1 \<le> i \<Longrightarrow> i < length s \<Longrightarrow> 0 < idx \<Longrightarrow> (i - 1) div 2 = idx
      \<Longrightarrow> s ! i \<le> s ! ((idx - 1) div 2)"
    using inv by (simp add: order_except_down_def)
  have a: "t ! i \<le> t ! ((i - 1) div 2)" if "1 \<le> i" "i < length s" "(i - 1) div 2 \<noteq> ch" for i
  proof -
    have pi: "(i - 1) div 2 < length s" and pless: "(i - 1) div 2 < i" using that by simp_all
    consider "i = ch" | "i = idx" | "i \<noteq> ch" "i \<noteq> idx" "(i - 1) div 2 = idx"
      | "i \<noteq> ch" "i \<noteq> idx" "(i - 1) div 2 \<noteq> idx" by blast
    then show ?thesis
    proof cases
      case 1
      then show ?thesis using tn [of ch] tn [of idx] len idxch pch lt by simp
    next
      case 2
      then have "0 < idx" using that by simp
      then have "s ! ch \<le> s ! ((idx - 1) div 2)" using up [of ch] len pch idxch by simp
      moreover have "(idx - 1) div 2 < idx" using \<open>0 < idx\<close> by simp
      ultimately show ?thesis using 2 tn [of idx] tn [of "(idx - 1) div 2"] len idxch by simp
    next
      case 3
      then have "i = idx * 2 + 1 \<or> i = idx * 2 + 2" using that parent_eq by simp
      then have "s ! i \<le> s ! ch" using big that by simp
      then show ?thesis using 3 tn [of i] tn [of idx] that len idxch by simp
    next
      case 4
      then have "s ! i \<le> s ! ((i - 1) div 2)" using ord that by simp
      then show ?thesis using 4 tn [of i] tn [OF pi] that by simp
    qed
  qed
  have b: "t ! i \<le> t ! ((ch - 1) div 2)" if "1 \<le> i" "i < length s" "(i - 1) div 2 = ch" for i
  proof -
    have "ch < i" using that by auto
    then have "i \<noteq> ch" "i \<noteq> idx" using idxch by auto
    moreover have "s ! i \<le> s ! ch" using ord [of i] that idxch by simp
    ultimately show ?thesis using tn [of i] tn [of idx] that len idxch pch by simp
  qed
  have "order_except_down t ch"
    unfolding order_except_down_def using a b lent by auto
  then show ?thesis by (simp add: t_def)
qed

lemma Pop_body_order:
  assumes inv: "order_except_down s idx" and len: "idx < length s"
  shows "case Pop_body s idx of
           Inl e \<Rightarrow> heap_order s
         | Inr Return \<Rightarrow> heap_order s
         | Inr (Continue s' idx') \<Rightarrow> order_except_down s' idx'"
proof -
  consider (leaf) "length s \<le> idx * 2 + 1"
    | (one) "idx * 2 + 1 < length s" "length s \<le> idx * 2 + 2"
    | (two) "idx * 2 + 2 < length s" by linarith
  then show ?thesis
  proof cases
    case leaf
    then have "heap_order s" using order_except_down_done [OF inv] by simp
    then show ?thesis using leaf by (simp add: Pop_body_def Let_def)
  next
    case one
    show ?thesis
    proof (cases "s ! idx < s ! (idx * 2 + 1)")
      case True
      have "order_except_down (s[idx := s ! (idx * 2 + 1), idx * 2 + 1 := s ! idx]) (idx * 2 + 1)"
        using order_except_down_step [OF inv, of "idx * 2 + 1"] one True by auto
      then show ?thesis using one True len
        by (simp add: Pop_body_def Let_def andE_def lt_at_def at_def swap_continue_def swap_at_def)
    next
      case False
      then have "heap_order s" using order_except_down_done [OF inv] one by auto
      then show ?thesis using one False len
        by (simp add: Pop_body_def Let_def andE_def lt_at_def ge_at_def at_def)
    qed
  next
    case two
    let ?l = "idx * 2 + 1" and ?r = "idx * 2 + 2"
    have L: "s ! idx < s ! ?l \<Longrightarrow> s ! ?r \<le> s ! ?l \<Longrightarrow>
        order_except_down (s[idx := s ! ?l, ?l := s ! idx]) ?l"
      using order_except_down_step [OF inv, of ?l] two by auto
    have R: "s ! idx < s ! ?r \<Longrightarrow> s ! ?l \<le> s ! ?r \<Longrightarrow>
        order_except_down (s[idx := s ! ?r, ?r := s ! idx]) ?r"
      using order_except_down_step [OF inv, of ?r] two by auto
    have D: "s ! ?l \<le> s ! idx \<Longrightarrow> s ! ?r \<le> s ! idx \<Longrightarrow> heap_order s"
      using order_except_down_done [OF inv] by auto
    show ?thesis using two len L R D
      by (simp add: Pop_body_def Let_def andE_def lt_at_def ge_at_def at_def swap_continue_def
          swap_at_def)
  qed
qed

lemma Pop_loop_order:
  "order_except_down s idx \<Longrightarrow> heap_order (snd (Pop_loop s idx))"
proof (induction s idx rule: Pop_loop.induct)
  case (1 s idx)
  show ?case
  proof (cases "idx < length s")
    case False
    then have "heap_order s" using order_except_down_done [OF "1.prems"] by simp
    then show ?thesis using False by (simp add: Pop_loop.simps [of s idx])
  next
    case True
    note body = Pop_body_order [OF "1.prems" True]
    show ?thesis
    proof (cases "Pop_body s idx")
      case (Inl e)
      then show ?thesis using body True by (simp add: Pop_loop.simps [of s idx])
    next
      case (Inr st)
      show ?thesis
      proof (cases st)
        case Return
        then show ?thesis using body True Inr by (simp add: Pop_loop.simps [of s idx])
      next
        case (Continue s' idx')
        then have "heap_order (snd (Pop_loop s' idx'))"
          using "1.IH" [OF True Inr Continue] body Inr by simp
        then show ?thesis using True Inr Continue by (simp add: Pop_loop.simps [of s idx])
      qed
    qed
  qed
qed

lemma Pop_order:
  assumes "heap_order (c h)"
  shows "heap_order (c (snd (Pop h)))"
proof (cases "c h = []")
  case True
  then show ?thesis using assms by (simp add: Pop_def IsEmpty_def)
next
  case False
  define s2 where "s2 = take (length (c h) - 1) ((c h)[0 := c h ! (length (c h) - 1)])"
  have "s2 ! i \<le> s2 ! ((i - 1) div 2)"
    if "1 \<le> i" "i < length s2" "(i - 1) div 2 \<noteq> 0" for i
  proof -
    have "i < length (c h)" "(i - 1) div 2 < length s2" using that by (simp_all add: s2_def)
    then show ?thesis using assms that by (simp add: s2_def heap_order_def)
  qed
  then have "order_except_down s2 0" by (simp add: order_except_down_def)
  then have "heap_order (snd (Pop_loop s2 0))" by (rule Pop_loop_order)
  then show ?thesis using False
    by (auto simp: Pop_def IsEmpty_def Let_def s2_def split: prod.splits sum.splits)
qed

lemma run_calls_order: "heap_order (c h) \<Longrightarrow> heap_order (c (run_calls as h))"
proof (induction as arbitrary: h)
  case Nil
  then show ?case by simp
next
  case (Cons a as)
  have "heap_order (c (do_call a h))"
    using Cons.prems Push_order Pop_order by (cases a) simp_all
  then show ?case using Cons.IH by simp
qed


text \<open>
  C5. After any finite sequence of \<open>Push\<close> and \<open>Pop\<close> calls on a heap that started
  empty, if the heap is not empty then \<open>Peek\<close> returns a value that no element of
  \<open>h.c\<close> (the positions below \<open>len(h.c)\<close>) exceeds. A \<open>Pop\<close> that panics leaves
  \<open>h.c\<close> in heap order too, so the sequence may contain such calls.
\<close>

theorem Peek_is_maximum:
  "\<not> fst (IsEmpty (run_calls as NewHeap)) \<Longrightarrow>
     \<forall>x \<in> set (c (run_calls as NewHeap)). x \<le> fst (Peek (run_calls as NewHeap))"
proof
  fix x
  assume ne: "\<not> fst (IsEmpty (run_calls as NewHeap))"
    and x: "x \<in> set (c (run_calls as NewHeap))"
  have "heap_order (c NewHeap)" by (simp add: heap_order_def NewHeap_def)
  then have ord: "heap_order (c (run_calls as NewHeap))" by (rule run_calls_order)
  obtain i where "i < length (c (run_calls as NewHeap))" "c (run_calls as NewHeap) ! i = x"
    using x by (auto simp: in_set_conv_nth)
  then have "x \<le> c (run_calls as NewHeap) ! 0" using heap_order_root [OF ord] by auto
  then show "x \<le> fst (Peek (run_calls as NewHeap))"
    using ne by (simp add: Peek_def IsEmpty_def)
qed

theorem Peek_is_maximum_witness:
  "\<not> fst (IsEmpty (run_calls [CallPush 5, CallPush 4, CallPush 3, CallPop, CallPush 7] NewHeap))
   \<and> c (run_calls [CallPush 5, CallPush 4, CallPush 3, CallPop, CallPush 7] NewHeap) = [7, 3, 4]
   \<and> 7 \<le> fst (Peek (run_calls [CallPush 5, CallPush 4, CallPush 3, CallPop, CallPush 7] NewHeap))
   \<and> 3 \<le> fst (Peek (run_calls [CallPush 5, CallPush 4, CallPush 3, CallPop, CallPush 7] NewHeap))
   \<and> 4 \<le> fst (Peek (run_calls [CallPush 5, CallPush 4, CallPush 3, CallPop, CallPush 7] NewHeap))"
proof -
  have e: "run_calls [CallPush 5, CallPush 4, CallPush 3, CallPop, CallPush 7] NewHeap
      = \<lparr>c = [7, 3, 4]\<rparr>"
    by code_simp
  have ne: "\<not> fst (IsEmpty
      (run_calls [CallPush 5, CallPush 4, CallPush 3, CallPop, CallPush 7] NewHeap))"
    unfolding e by (simp add: IsEmpty_def)
  show ?thesis
    using ne Peek_is_maximum [OF ne] unfolding e by simp
qed

subsection \<open>Where Pop reads past the end\<close>

text \<open>
  C3. \<open>Pop\<close> does not keep every read in bounds. After \<open>Push 5\<close>, \<open>Push 3\<close>, \<open>Push 4\<close> the
  array is \<open>[5, 3, 4]\<close>; \<open>Pop\<close> moves 4 to the root and shrinks the array to \<open>[4, 3]\<close>.
  The root now has a left child only and is not smaller than it, so the second test of
  the loop body fails and the third one reads \<open>h.c[right]\<close> with \<open>right = len(h.c)\<close>:
  the call panics instead of returning 5.
\<close>

theorem Pop_panics_single_left_child:
  "Push 4 (snd (Push 3 (snd (Push 5 NewHeap)))) = (Inr (), \<lparr>c = [5, 3, 4]\<rparr>)
   \<and> Pop \<lparr>c = [5, 3, 4]\<rparr> = (Inl IndexOutOfRange, \<lparr>c = [4, 3]\<rparr>)"
  by code_simp

subsection \<open>maxSlidingWindow on concrete inputs\<close>

text \<open>
  C1. On the input \<open>[9,10,9,-7,-4,8,2,-6]\<close> with \<open>k = 5\<close> the call returns four values,
  one for each of the \<open>8 - 5 + 1\<close> windows, and the first three are 10, 10, 9.
\<close>

theorem maxSlidingWindow_demo:
  "\<exists>x. fst (maxSlidingWindow [9, 10, 9, - 7, - 4, 8, 2, - 6] 5) = Inr [10, 10, 9, x]"
proof
  show "fst (maxSlidingWindow [9, 10, 9, - 7, - 4, 8, 2, - 6] 5) = Inr [10, 10, 9, 9]"
    by code_simp
qed

text \<open>The five values \<open>[10,10,9,8,8]\<close> are not what the call returns.\<close>

theorem maxSlidingWindow_demo_not_five:
  "fst (maxSlidingWindow [9, 10, 9, - 7, - 4, 8, 2, - 6] 5) \<noteq> Inr [10, 10, 9, 8, 8]"
  by code_simp

text \<open>
  C2. The output is not always the window maximum. On \<open>[1,2,0,0,0]\<close> with \<open>k = 3\<close> the
  element 1 leaves the window while 2 is at the root, so it is never removed; once 2 has
  been removed, 1 is reported for the window \<open>[0,0,0]\<close>, whose maximum is 0. On the
  input of \<open>Test_Func2\<close> the value 9 is reported for the last window
  \<open>[-7,-4,8,2,-6]\<close>, whose maximum is 8.
\<close>

theorem maxSlidingWindow_stale_maximum:
  "fst (maxSlidingWindow [1, 2, 0, 0, 0] 3) = Inr [2, 2, 1]
   \<and> Max (set (take 3 (drop 2 [1, 2, 0, 0, 0 :: int]))) = 0
   \<and> fst (maxSlidingWindow [9, 10, 9, - 7, - 4, 8, 2, - 6] 5) = Inr [10, 10, 9, 9]
   \<and> Max (set (take 5 (drop 3 [9, 10, 9, - 7, - 4, 8, 2, - 6 :: int]))) = 8"
proof -
  have "fst (maxSlidingWindow [1, 2, 0, 0, 0] 3) = Inr [2, 2, 1]"
    by code_simp
  moreover have "Max (set (take 3 (drop 2 [1, 2, 0, 0, 0 :: int]))) = 0"
    by simp
  moreover have "fst (maxSlidingWindow [9, 10, 9, - 7, - 4, 8, 2, - 6] 5) = Inr [10, 10, 9, 9]"
    by code_simp
  moreover have "Max (set (take 5 (drop 3 [9, 10, 9, - 7, - 4, 8, 2, - 6 :: int]))) = 8"
    by simp
  ultimately show ?thesis by blast
qed

text \<open>
  C4. The call does not always return a sequence of length \<open>n - k + 1\<close>: on
  \<open>[1,2,1,0]\<close> with \<open>k = 2\<close> the \<open>Pop\<close> of the third window panics (the heap is
  \<open>[2,1,1]\<close> at that point), so nothing is returned.
\<close>

theorem maxSlidingWindow_panics:
  "fst (maxSlidingWindow [1, 2, 1, 0] 2) = Inl IndexOutOfRange"
  by code_simp

text \<open>
  C6. A constant input does not always give a constant output: on \<open>[5,5,5,5]\<close> with
  \<open>k = 3\<close> the \<open>Pop\<close> of the second window panics (the heap is \<open>[5,5,5]\<close>), so
  nothing is returned.
\<close>

theorem maxSlidingWindow_constant_panics:
  "fst (maxSlidingWindow [5, 5, 5, 5] 3) = Inl IndexOutOfRange"
  by code_simp

end
